theory Spec2Isabelle
  imports Complex_Main
begin

section \<open>Geometry\<close>

text \<open>
  The program stores coordinates in \<^verbatim>\<open>typedef double space_pos_t\<close>. A finite \<open>double\<close> is
  read as the real number it denotes, so \<open>space_pos_t\<close> is \<open>real\<close>. The operations of this
  section and of the next compute in exact arithmetic. That is what the code computes
  in \<open>hilbert_create\<close>, whose numbers are whole multiples of \<open>2 ^ - 16\<close> between \<open>- 1\<close> and 1
  (lemma \<open>hilbert_create_on_grid\<close> below): a \<open>double\<close> holds them without rounding. On
  other arguments the operations of the code round; section \<open>Double arithmetic\<close> gives
  the reflection and the rotations with the rounding of a \<open>double\<close>.
\<close>

type_synonym space_pos_t = real

text \<open>\<^verbatim>\<open>struct space_vec2 { space_pos_t x, y; };\<close>\<close>

record space_vec2 =
  x :: space_pos_t
  y :: space_pos_t

text \<open>\<^verbatim>\<open>#define POINT_AT(px, py) { .x = px, .y = py }\<close>\<close>

abbreviation POINT_AT :: "space_pos_t \<Rightarrow> space_pos_t \<Rightarrow> space_vec2" where
  "POINT_AT px py \<equiv> \<lparr>x = px, y = py\<rparr>"

text \<open>\<^verbatim>\<open>SPACE_SWAP_POINT(point)\<close>: exchange the two coordinates through a temporary.\<close>

definition SPACE_SWAP_POINT :: "space_vec2 \<Rightarrow> space_vec2" where
  "SPACE_SWAP_POINT point = (let tmp = x point in point\<lparr>x := y point, y := tmp\<rparr>)"

text \<open>
  \<^verbatim>\<open>SPACE_OP_POINTS(pointA, op, pointB)\<close>: the compound assignment \<open>op\<close> (one of
  \<^verbatim>\<open>-=\<close>, \<^verbatim>\<open>+=\<close>, \<^verbatim>\<open>*=\<close>) on \<open>x\<close>, then on \<open>y\<close>. The operator is passed as the
  binary function it applies.
\<close>

definition SPACE_OP_POINTS ::
  "space_vec2 \<Rightarrow> (space_pos_t \<Rightarrow> space_pos_t \<Rightarrow> space_pos_t) \<Rightarrow> space_vec2 \<Rightarrow> space_vec2" where
  "SPACE_OP_POINTS pointA opr pointB =
     pointA\<lparr>x := opr (x pointA) (x pointB), y := opr (y pointA) (y pointB)\<rparr>"

text \<open>\<^verbatim>\<open>SPACE_REFLECT_POINT(val, origin)\<close>: \<^verbatim>\<open>val -= origin; val *= -1; val += origin;\<close>\<close>

definition SPACE_REFLECT_POINT :: "space_pos_t \<Rightarrow> space_pos_t \<Rightarrow> space_pos_t" where
  "SPACE_REFLECT_POINT val origin = (val - origin) * (- 1) + origin"

text \<open>
  An array argument \<^verbatim>\<open>struct space_vec2 *arr\<close> with its length \<^verbatim>\<open>size_t len\<close> is a
  list; the loop \<^verbatim>\<open>for (i = 0; i < len; i++)\<close> over its elements, which updates each
  element in place and independently of the others, is \<open>map\<close>, and the function
  returns the updated array.
\<close>

definition space_reflect_y :: "space_vec2 list \<Rightarrow> space_pos_t \<Rightarrow> space_vec2 list" where
  "space_reflect_y arr origin =
     map (\<lambda>p. p\<lparr>x := SPACE_REFLECT_POINT (x p) origin\<rparr>) arr"

definition space_reflect_x :: "space_vec2 list \<Rightarrow> space_pos_t \<Rightarrow> space_vec2 list" where
  "space_reflect_x arr origin =
     map (\<lambda>p. p\<lparr>y := SPACE_REFLECT_POINT (y p) origin\<rparr>) arr"

text \<open>
  \<^verbatim>\<open>SPACE_ROTATE_POINT_ABOUT_ORIGIN(point, neg_mult, origin)\<close>. The macro argument
  \<open>neg_mult\<close> is the name of the member that is negated after the swap.
\<close>

datatype member = Member_x | Member_y

definition SPACE_ROTATE_POINT_ABOUT_ORIGIN ::
  "space_vec2 \<Rightarrow> member \<Rightarrow> space_vec2 \<Rightarrow> space_vec2" where
  "SPACE_ROTATE_POINT_ABOUT_ORIGIN point neg_mult origin =
     (let p1 = SPACE_OP_POINTS point (-) origin;
          p2 = SPACE_SWAP_POINT p1;
          p3 = (case neg_mult of
                  Member_x \<Rightarrow> p2\<lparr>x := x p2 * (- 1)\<rparr>
                | Member_y \<Rightarrow> p2\<lparr>y := y p2 * (- 1)\<rparr>)
      in SPACE_OP_POINTS p3 (+) origin)"

text \<open>\<open>space_rotate_c\<close> passes the member \<open>x\<close>, \<open>space_rotate_cc\<close> the member \<open>y\<close>.\<close>

definition space_rotate_c :: "space_vec2 list \<Rightarrow> space_vec2 \<Rightarrow> space_vec2 list" where
  "space_rotate_c arr origin = map (\<lambda>p. SPACE_ROTATE_POINT_ABOUT_ORIGIN p Member_x origin) arr"

definition space_rotate_cc :: "space_vec2 list \<Rightarrow> space_vec2 \<Rightarrow> space_vec2 list" where
  "space_rotate_cc arr origin = map (\<lambda>p. SPACE_ROTATE_POINT_ABOUT_ORIGIN p Member_y origin) arr"

definition space_scale ::
  "space_vec2 list \<Rightarrow> space_pos_t \<Rightarrow> space_vec2 \<Rightarrow> space_vec2 list" where
  "space_scale arr scale origin =
     (let scale_p = POINT_AT scale scale
      in map (\<lambda>p. SPACE_OP_POINTS
                     (SPACE_OP_POINTS (SPACE_OP_POINTS p (-) origin) (*) scale_p)
                     (+) origin) arr)"

section \<open>Hilbert curve\<close>

text \<open>
  \<^verbatim>\<open>#define HILBERT_NUM_POINTS(order) (size_t) (1 << ((size_t) order * 2))\<close>

  \<open>order\<close> is a C \<open>int\<close>, here an \<open>int\<close> of HOL; \<open>int\<close> has 32 bits and \<open>size_t\<close> 64.
  The conversion \<^verbatim>\<open>(size_t) order\<close> reduces modulo \<open>2 ^ 64\<close>, and so does the
  multiplication by 2. The literal \<open>1\<close> is an \<open>int\<close>, so the shift is an \<open>int\<close> shift:
  it is undefined (\<open>None\<close>) when the count reaches the width of \<open>int\<close> or the result
  does not fit an \<open>int\<close>. The cast of the result to \<open>size_t\<close> comes after the shift.
\<close>

definition HILBERT_NUM_POINTS :: "int \<Rightarrow> nat option" where
  "HILBERT_NUM_POINTS order =
     (let count = nat (((order mod 2 ^ 64) * 2) mod 2 ^ 64)
      in if count < 32
         then (if (2::nat) ^ count < 2 ^ 31 then Some (2 ^ count) else None)
         else None)"

definition o1_hilbert :: "space_vec2 list" where
  "o1_hilbert =
     [POINT_AT (1/4) (3/4),
      POINT_AT (1/4) (1/4),
      POINT_AT (3/4) (1/4),
      POINT_AT (3/4) (3/4)]"

definition scale_origins :: "space_vec2 list" where
  "scale_origins =
     [POINT_AT 0 1,
      POINT_AT 0 0,
      POINT_AT 1 0,
      POINT_AT 1 1]"

definition center_point :: space_vec2 where
  "center_point = POINT_AT (1/2) (1/2)"

text \<open>
  The parameter \<^verbatim>\<open>struct space_vec2 **out\<close> matters to the control flow only through
  the test \<^verbatim>\<open>out == NULL\<close>.
\<close>

datatype out_ptr = Null | NonNull

text \<open>
  What a call does:
  \<^item> \<open>Returned n arr\<close>: it stores the buffer \<open>arr\<close> in \<^verbatim>\<open>*out\<close> and returns \<open>n\<close>;
  \<^item> \<open>Failed\<close>: it stores \<open>NULL\<close> in \<^verbatim>\<open>*out\<close> and returns \<^verbatim>\<open>(size_t) -1\<close>, the signal
    of an invalid call;
  \<^item> \<open>Undefined\<close>: the C standard gives the execution no meaning (a shift that is out
    of range, a store through a null pointer, a copy that leaves its buffer).
  \<open>malloc\<close> is taken to succeed, so that the two \<^verbatim>\<open>assert\<close>s on its result pass:
  running out of memory is not part of the embedding.
\<close>

datatype outcome =
    Returned (count: nat) (buffer: "space_vec2 list")
  | Failed
  | Undefined

text \<open>
  The code at the label \<^verbatim>\<open>fail:\<close>, \<^verbatim>\<open>*out = NULL; return -1;\<close>, and the two returns
  \<^verbatim>\<open>*out = arr; return num_points;\<close>. Each stores through \<open>out\<close>.
\<close>

definition fail :: "out_ptr \<Rightarrow> outcome" where
  "fail out = (case out of Null \<Rightarrow> Undefined | NonNull \<Rightarrow> Failed)"

definition return_arr :: "out_ptr \<Rightarrow> nat \<Rightarrow> space_vec2 list \<Rightarrow> outcome" where
  "return_arr out num_points arr =
     (case out of Null \<Rightarrow> Undefined | NonNull \<Rightarrow> Returned num_points arr)"

text \<open>
  The body of the loop over the four quadrants, for the index \<open>i\<close>: the working copy
  of \<open>lo\<close> (\<open>lo_points\<close> elements of it), the transformations chosen by \<open>i\<close>, and the
  scaling about \<open>scale_origins[i]\<close>. The result is what the loop then copies to
  \<^verbatim>\<open>&arr[lo_points * i]\<close>.
\<close>

definition hilbert_quadrant :: "nat \<Rightarrow> nat \<Rightarrow> space_vec2 list \<Rightarrow> space_vec2 list" where
  "hilbert_quadrant i lo_points lo =
     (let work = take lo_points lo;
          work = (if i = 0 then space_rotate_c (space_reflect_y work (1/2)) center_point
                  else if i = 4 then space_rotate_cc (space_reflect_y work (1/2)) center_point
                  else work)
      in space_scale work (1/2) (scale_origins ! i))"

text \<open>
  \<open>hilbert_create\<close>. The loop runs for \<open>i = 0, 1, 2, 3\<close> (\<open>scale_origins\<close> has four
  elements), and its \<open>i\<close>-th round copies \<open>lo_points\<close> elements to the offset
  \<open>lo_points * i\<close> of \<open>arr\<close>: the four copies fill \<open>arr\<close> from left to right, and they
  stay inside its \<open>num_points\<close> elements and leave none of them unwritten exactly
  when \<open>4 * lo_points = num_points\<close>. A call where this fails is given no meaning; there
  is none (lemma \<open>hilbert_create_copies_fit\<close> below). The recursive call passes
  \<^verbatim>\<open>&lo\<close>, which is not null, and the code uses its result without a test: after a
  failed call it would copy from the null pointer.
\<close>

function hilbert_create :: "out_ptr \<Rightarrow> int \<Rightarrow> outcome" where
  "hilbert_create out order =
     (if out = Null \<and> order \<ge> 1 then fail out
      else case HILBERT_NUM_POINTS order of
        None \<Rightarrow> Undefined
      | Some num_points \<Rightarrow>
          if order = 1 then return_arr out num_points (take num_points o1_hilbert)
          else (case hilbert_create NonNull (order - 1) of
                  Returned lo_points lo \<Rightarrow>
                    if 4 * lo_points = num_points
                    then return_arr out num_points
                           (concat (map (\<lambda>i. hilbert_quadrant i lo_points lo) [0..<4]))
                    else Undefined
                | Failed \<Rightarrow> Undefined
                | Undefined \<Rightarrow> Undefined))"
  by pat_completeness auto

section \<open>Writing a curve\<close>

text \<open>
  \<open>size_t\<close> values are \<open>nat\<close>s below \<open>2 ^ 64\<close>, with the wrap-around of the additions and
  multiplications written out. The stream \<open>fp\<close> is the list of bytes written to it so
  far. The bytes of one \<^verbatim>\<open>struct space_vec2\<close> in memory (\<open>sizeof\<close> is 16) are not part of
  the embedding: they are given by a parameter \<open>repr\<close>, and what is proved holds for
  every \<open>repr\<close>. \<open>fwrite\<close> is taken to write all it is asked to (the code does not look
  at what it returns), and \<open>fflush\<close> does not change what has been written.
\<close>

definition max_write :: nat where
  "max_write = 65536"

text \<open>
  \<^verbatim>\<open>fwrite(&hc[i], sizeof(struct space_vec2), nmemb, fp)\<close>: the \<open>nmemb\<close> elements of \<open>hc\<close>
  from the index \<open>i\<close> on, appended to the stream.
\<close>

definition fwrite ::
  "(space_vec2 \<Rightarrow> 'b list) \<Rightarrow> space_vec2 list \<Rightarrow> nat \<Rightarrow> nat \<Rightarrow> 'b list \<Rightarrow> 'b list" where
  "fwrite repr hc i nmemb fp = fp @ concat (map repr (take nmemb (drop i hc)))"

text \<open>
  The branch-free choice of the chunk length: a comparison is 0 or 1 in C.
\<close>

definition to_write :: "nat \<Rightarrow> nat" where
  "to_write write_left =
     (of_bool (write_left > max_write) * max_write +
      of_bool (write_left \<le> max_write) * write_left) mod 2 ^ 64"

text \<open>
  A call of \<open>write_hilbert_curve\<close> either returns with the stream as it has become, or
  reads past the end of \<open>hc\<close>, which is undefined; when the loop runs forever the
  result is \<open>None\<close>.
\<close>

datatype 'b written = Written "'b list" | Out_of_bounds

text \<open>The loop \<^verbatim>\<open>for (size_t i = 0; i < len; i += max_write)\<close>, from the index \<open>i\<close> on.\<close>

partial_function (option) write_loop ::
  "(space_vec2 \<Rightarrow> 'b list) \<Rightarrow> space_vec2 list \<Rightarrow> nat \<Rightarrow> nat \<Rightarrow> 'b list
     \<Rightarrow> 'b written option" where
  "write_loop repr hc len i fp =
     (if i < len
      then (if i + to_write (len - i) \<le> length hc
            then write_loop repr hc len ((i + max_write) mod 2 ^ 64)
                   (fwrite repr hc i (to_write (len - i)) fp)
            else Some Out_of_bounds)
      else Some (Written fp))"

definition write_hilbert_curve ::
  "(space_vec2 \<Rightarrow> 'b list) \<Rightarrow> space_vec2 list \<Rightarrow> nat \<Rightarrow> 'b list \<Rightarrow> 'b written option" where
  "write_hilbert_curve repr hc len fp = write_loop repr hc len 0 fp"

text \<open>
  What the specification compares the chunked writer with: the points \<open>hc[0..len)\<close>
  written by a single call of \<open>fwrite\<close>.
\<close>

definition single_write ::
  "(space_vec2 \<Rightarrow> 'b list) \<Rightarrow> space_vec2 list \<Rightarrow> nat \<Rightarrow> 'b list \<Rightarrow> 'b list" where
  "single_write repr hc len fp = fwrite repr hc 0 len fp"

section \<open>What the specification says of the rotations\<close>

text \<open>
  The specification describes a rotation as: translate the point by \<open>- origin\<close>, swap
  its coordinates, negate one of the new coordinates, translate back by \<open>+ origin\<close>.
  After the translation the point is \<open>(dx, dy)\<close>, after the swap \<open>(dy, dx)\<close>.
  \<open>swap_negate_y\<close> negates the new \<open>y\<close>, \<open>swap_negate_x\<close> the new \<open>x\<close>.
\<close>

definition swap_negate_y :: "space_vec2 \<Rightarrow> space_vec2 \<Rightarrow> space_vec2" where
  "swap_negate_y p origin =
     (let dx = x p - x origin; dy = y p - y origin
      in POINT_AT (dy + x origin) (- dx + y origin))"

definition swap_negate_x :: "space_vec2 \<Rightarrow> space_vec2 \<Rightarrow> space_vec2" where
  "swap_negate_x p origin =
     (let dx = x p - x origin; dy = y p - y origin
      in POINT_AT (- dy + x origin) (dx + y origin))"

section \<open>Double arithmetic\<close>

text \<open>
  A \<open>double\<close> is an IEEE 754 binary64 number: a whole multiple of \<open>2 ^ e\<close> with fewer than
  54 bits, where \<open>e\<close> is at least \<open>- 1074\<close>, and of magnitude below \<open>2 ^ 1024\<close>. Each of
  \<^verbatim>\<open>-=\<close>, \<^verbatim>\<open>+=\<close> and \<^verbatim>\<open>*=\<close> stores the exact result rounded to the nearest
  \<open>double\<close>, a tie going to the one with the even last bit. Outside the embedding are a
  result that rounds to \<open>2 ^ 1024\<close> or beyond (in C an infinity), a not-a-number, and
  the sign of a zero.
\<close>

definition round_half_even :: "real \<Rightarrow> int" where
  "round_half_even q =
     (let f = \<lfloor>q\<rfloor>; d = q - of_int f
      in if d < 1/2 then f else if 1/2 < d then f + 1 else if even f then f else f + 1)"

text \<open>
  The exponent of the last bit of \<open>r\<close> is \<open>\<lfloor>log 2 \<bar>r\<bar>\<rfloor> - 52\<close>, and \<open>- 1074\<close> for the smallest
  numbers; \<open>r\<close> is rounded to a whole multiple of that power of two.
\<close>

definition round_double :: "real \<Rightarrow> real" where
  "round_double r =
     (if r = 0 then 0
      else let e = max (\<lfloor>log 2 \<bar>r\<bar>\<rfloor> - 52) (- 1074)
           in of_int (round_half_even (r / 2 powr of_int e)) * 2 powr of_int e)"

text \<open>A real number that is a \<open>double\<close>.\<close>

definition representable :: "real \<Rightarrow> bool" where
  "representable v = (round_double v = v \<and> \<bar>v\<bar> < 2 ^ 1024)"

text \<open>The three compound assignments on \<open>double\<close>s.\<close>

definition double_sub :: "real \<Rightarrow> real \<Rightarrow> real" where
  "double_sub a b = round_double (a - b)"

definition double_add :: "real \<Rightarrow> real \<Rightarrow> real" where
  "double_add a b = round_double (a + b)"

definition double_mul :: "real \<Rightarrow> real \<Rightarrow> real" where
  "double_mul a b = round_double (a * b)"

text \<open>
  \<open>SPACE_REFLECT_POINT\<close>, \<open>space_reflect_y\<close>, \<open>SPACE_ROTATE_POINT_ABOUT_ORIGIN\<close>,
  \<open>space_rotate_c\<close> and \<open>space_rotate_cc\<close> once more, statement by statement as above,
  with the assignments of a \<open>double\<close>.
\<close>

definition SPACE_REFLECT_POINT_double :: "space_pos_t \<Rightarrow> space_pos_t \<Rightarrow> space_pos_t" where
  "SPACE_REFLECT_POINT_double val origin =
     double_add (double_mul (double_sub val origin) (- 1)) origin"

definition space_reflect_y_double :: "space_vec2 list \<Rightarrow> space_pos_t \<Rightarrow> space_vec2 list" where
  "space_reflect_y_double arr origin =
     map (\<lambda>p. p\<lparr>x := SPACE_REFLECT_POINT_double (x p) origin\<rparr>) arr"




section \<open>The open unit square\<close>

text \<open>
  A point strictly inside the unit square. The proofs about \<open>hilbert_create\<close> carry
  this stronger property of the points of a curve: it places the four quadrant copies
  in four regions that do not meet.
\<close>

definition inside :: "space_vec2 \<Rightarrow> bool" where
  "inside p = (0 < x p \<and> x p < 1 \<and> 0 < y p \<and> y p < 1)"

text \<open>
  A point both of whose coordinates are whole multiples of \<open>2 ^ - k\<close>. Used to state
  where exact arithmetic and the arithmetic of a \<open>double\<close> agree.
\<close>

definition on_grid :: "nat \<Rightarrow> space_vec2 \<Rightarrow> bool" where
  "on_grid k p = (x p * 2 ^ k \<in> \<int> \<and> y p * 2 ^ k \<in> \<int>)"

section \<open>Termination of \<open>hilbert_create\<close>\<close>

text \<open>
  The shift is defined for sixteen values of \<open>order\<close> modulo \<open>2 ^ 63\<close> only, so the
  recursion, which goes on only where the shift is defined, stops.
\<close>

lemma HILBERT_NUM_POINTS_Some_range:
  assumes "HILBERT_NUM_POINTS order = Some n"
  shows "order mod 2 ^ 63 \<le> 15"
proof -
  define r where "r = order mod 2 ^ 64"
  have r: "0 \<le> r" "r < 2 ^ 64" by (simp_all add: r_def)
  from assms have "nat ((r * 2) mod 2 ^ 64) < 32"
    by (auto simp: HILBERT_NUM_POINTS_def Let_def r_def split: if_splits)
  then have c: "(r * 2) mod 2 ^ 64 < 32" by linarith
  have m: "order mod 2 ^ 63 = r mod 2 ^ 63"
    unfolding r_def by (simp add: mod_mod_cancel)
  show ?thesis
  proof (cases "r < 2 ^ 63")
    case True
    with r have "(r * 2) mod 2 ^ 64 = r * 2" by (intro mod_pos_pos_trivial) simp_all
    with c have "r \<le> 15" by linarith
    moreover from True r have "r mod 2 ^ 63 = r" by (intro mod_pos_pos_trivial) simp_all
    ultimately show ?thesis using m by simp
  next
    case False
    with r have b: "0 \<le> r * 2 - 2 ^ 64" "r * 2 - 2 ^ 64 < 2 ^ 64" by simp_all
    have "(r * 2) mod 2 ^ 64 = (r * 2 - 2 ^ 64) mod 2 ^ 64" by simp
    also from b have "\<dots> = r * 2 - 2 ^ 64" by (intro mod_pos_pos_trivial)
    finally have "r * 2 - 2 ^ 64 < 32" using c by simp
    then have "r - 2 ^ 63 \<le> 15" by simp
    moreover have "r mod 2 ^ 63 = (r - 2 ^ 63) mod 2 ^ 63" by simp
    moreover from False r have "(r - 2 ^ 63) mod 2 ^ 63 = r - 2 ^ 63"
      by (intro mod_pos_pos_trivial) simp_all
    ultimately show ?thesis using m by simp
  qed
qed

termination hilbert_create
proof (relation "measure (\<lambda>(out, order). nat ((order + 1) mod 2 ^ 63))")
  show "wf (measure (\<lambda>(out, order). nat ((order + 1) mod 2 ^ 63)))" by simp
next
  fix out :: out_ptr and order :: int and n :: nat
  assume "HILBERT_NUM_POINTS order = Some n"
  then have le: "order mod 2 ^ 63 \<le> 15" by (rule HILBERT_NUM_POINTS_Some_range)
  have ge: "0 \<le> order mod 2 ^ 63" by simp
  have "(order + 1) mod 2 ^ 63 = (order mod 2 ^ 63 + 1) mod 2 ^ 63"
    by (simp add: mod_simps)
  also from le ge have "\<dots> = order mod 2 ^ 63 + 1" by (intro mod_pos_pos_trivial) simp_all
  finally have "(order - 1 + 1) mod 2 ^ 63 < (order + 1) mod 2 ^ 63" by simp
  then show "((NonNull, order - 1), (out, order))
      \<in> measure (\<lambda>(out, order). nat ((order + 1) mod 2 ^ 63))"
    using ge by simp
qed

declare hilbert_create.simps [simp del]

section \<open>The geometric operations, point by point\<close>

lemma upd_x: "(p::space_vec2)\<lparr>x := v\<rparr> = POINT_AT v (y p)"
  by (cases p) simp

lemma upd_y: "(p::space_vec2)\<lparr>y := v\<rparr> = POINT_AT (x p) v"
  by (cases p) simp

lemma point_eqI: "x p = x q \<Longrightarrow> y p = y q \<Longrightarrow> (p::space_vec2) = q"
  by simp


lemma reflect_y_map:
  "space_reflect_y arr origin = map (\<lambda>p. POINT_AT (2 * origin - x p) (y p)) arr"
  by (simp add: space_reflect_y_def SPACE_REFLECT_POINT_def upd_x)

lemma rotate_point_x:
  "SPACE_ROTATE_POINT_ABOUT_ORIGIN p Member_x origin =
     POINT_AT (x origin - (y p - y origin)) (y origin + (x p - x origin))"
  by (simp add: SPACE_ROTATE_POINT_ABOUT_ORIGIN_def SPACE_OP_POINTS_def SPACE_SWAP_POINT_def
      Let_def upd_x upd_y)

lemma rotate_point_y:
  "SPACE_ROTATE_POINT_ABOUT_ORIGIN p Member_y origin =
     POINT_AT (x origin + (y p - y origin)) (y origin - (x p - x origin))"
  by (simp add: SPACE_ROTATE_POINT_ABOUT_ORIGIN_def SPACE_OP_POINTS_def SPACE_SWAP_POINT_def
      Let_def upd_x upd_y)

lemma scale_map:
  "space_scale arr s origin =
     map (\<lambda>p. POINT_AT ((x p - x origin) * s + x origin) ((y p - y origin) * s + y origin)) arr"
  by (simp add: space_scale_def SPACE_OP_POINTS_def Let_def upd_x upd_y)

section \<open>The point count\<close>

lemma HILBERT_NUM_POINTS_small:
  assumes "0 \<le> order" "order \<le> 15"
  shows "HILBERT_NUM_POINTS order = Some (4 ^ nat order)"
proof -
  from assms have "order mod 2 ^ 64 = order"
    by (intro mod_pos_pos_trivial) simp_all
  moreover from assms have "(order * 2) mod 2 ^ 64 = order * 2"
    by (intro mod_pos_pos_trivial) simp_all
  moreover from assms have "nat (order * 2) < 32" by simp
  moreover from assms have "nat (order * 2) \<le> 30" by simp
  then have "(2::nat) ^ nat (order * 2) \<le> 2 ^ 30" by (rule power_increasing) simp
  then have "(2::nat) ^ nat (order * 2) < 2 ^ 31" by simp
  moreover have "(2::nat) ^ nat (order * 2) = 4 ^ nat order"
  proof -
    have "nat (order * 2) = 2 * nat order" using assms by simp
    then show ?thesis by (simp add: power_mult)
  qed
  ultimately show ?thesis by (simp add: HILBERT_NUM_POINTS_def Let_def)
qed

lemma num_points_1: "HILBERT_NUM_POINTS 1 = Some 4"
  by (simp add: HILBERT_NUM_POINTS_def)

lemma num_points_2: "HILBERT_NUM_POINTS 2 = Some 16"
  by (simp add: HILBERT_NUM_POINTS_def)

lemma num_points_0: "HILBERT_NUM_POINTS 0 = Some 1"
  by (simp add: HILBERT_NUM_POINTS_def)

lemma num_points_minus_1: "HILBERT_NUM_POINTS (- 1) = None"
  by (simp add: HILBERT_NUM_POINTS_def)

lemma num_points_16: "HILBERT_NUM_POINTS 16 = None"
  by (simp add: HILBERT_NUM_POINTS_def)

section \<open>The curves of order 1 and 2\<close>

lemma upt_0_4: "[0..<4] = [0, 1, 2, 3]"
  by (simp add: upt_rec)

lemma hilbert_create_1: "hilbert_create NonNull 1 = Returned 4 o1_hilbert"
  by (simp add: hilbert_create.simps [of _ 1] num_points_1 o1_hilbert_def return_arr_def)

lemma hilbert_create_2:
  "hilbert_create NonNull 2 = Returned 16
    [POINT_AT (1/8) (7/8), POINT_AT (3/8) (7/8), POINT_AT (3/8) (5/8), POINT_AT (1/8) (5/8),
     POINT_AT (1/8) (3/8), POINT_AT (1/8) (1/8), POINT_AT (3/8) (1/8), POINT_AT (3/8) (3/8),
     POINT_AT (5/8) (3/8), POINT_AT (5/8) (1/8), POINT_AT (7/8) (1/8), POINT_AT (7/8) (3/8),
     POINT_AT (5/8) (7/8), POINT_AT (5/8) (5/8), POINT_AT (7/8) (5/8), POINT_AT (7/8) (7/8)]"
  by (simp add: hilbert_create.simps [of _ 2] num_points_2 hilbert_create_1 upt_0_4
      return_arr_def hilbert_quadrant_def o1_hilbert_def scale_origins_def center_point_def scale_map
      space_rotate_c_def reflect_y_map rotate_point_x)

section \<open>The four quadrant copies\<close>

text \<open>
  On a working copy of the whole of \<open>lo\<close>, the four rounds of the loop are four maps.
  The round \<open>i = 3\<close> takes neither branch of the test on \<open>i\<close> (the second branch asks
  for \<open>i = 4\<close>), so it only scales.
\<close>

lemma quadrant_0:
  "hilbert_quadrant 0 (length lo) lo = map (\<lambda>p. POINT_AT ((1 - y p) / 2) (1 - x p / 2)) lo"
  by (simp add: hilbert_quadrant_def scale_origins_def center_point_def scale_map
      space_rotate_c_def reflect_y_map rotate_point_x field_simps)

lemma quadrant_1:
  "hilbert_quadrant (Suc 0) (length lo) lo = map (\<lambda>p. POINT_AT (x p / 2) (y p / 2)) lo"
  by (simp add: hilbert_quadrant_def scale_origins_def scale_map)

lemma quadrant_2:
  "hilbert_quadrant 2 (length lo) lo = map (\<lambda>p. POINT_AT ((x p + 1) / 2) (y p / 2)) lo"
  by (simp add: hilbert_quadrant_def scale_origins_def scale_map field_simps)

lemma quadrant_3:
  "hilbert_quadrant 3 (length lo) lo =
     map (\<lambda>p. POINT_AT ((x p + 1) / 2) ((y p + 1) / 2)) lo"
  by (simp add: hilbert_quadrant_def scale_origins_def scale_map field_simps)

lemma blocks_eq:
  "concat (map (\<lambda>i. hilbert_quadrant i (length lo) lo) [0..<4]) =
     map (\<lambda>p. POINT_AT ((1 - y p) / 2) (1 - x p / 2)) lo @
     map (\<lambda>p. POINT_AT (x p / 2) (y p / 2)) lo @
     map (\<lambda>p. POINT_AT ((x p + 1) / 2) (y p / 2)) lo @
     map (\<lambda>p. POINT_AT ((x p + 1) / 2) ((y p + 1) / 2)) lo"
  by (simp add: upt_0_4 quadrant_0 quadrant_1 quadrant_2 quadrant_3)

lemma blocks_inside:
  assumes "list_all inside lo"
  shows "list_all inside (concat (map (\<lambda>i. hilbert_quadrant i (length lo) lo) [0..<4]))"
  unfolding blocks_eq using assms
  by (auto simp: list_all_iff inside_def)

lemma blocks_distinct:
  assumes "list_all inside lo" and "distinct lo"
  shows "distinct (concat (map (\<lambda>i. hilbert_quadrant i (length lo) lo) [0..<4]))"
proof -
  let ?q0 = "\<lambda>p. POINT_AT ((1 - y p) / 2) (1 - x p / 2)"
  let ?q1 = "\<lambda>p. POINT_AT (x p / 2) (y p / 2)"
  let ?q2 = "\<lambda>p. POINT_AT ((x p + 1) / 2) (y p / 2)"
  let ?q3 = "\<lambda>p. POINT_AT ((x p + 1) / 2) ((y p + 1) / 2)"
  have i0: "inj_on ?q0 (set lo)" by (rule inj_onI, rule point_eqI) simp_all
  have i1: "inj_on ?q1 (set lo)" by (rule inj_onI, rule point_eqI) simp_all
  have i2: "inj_on ?q2 (set lo)" by (rule inj_onI, rule point_eqI) simp_all
  have i3: "inj_on ?q3 (set lo)" by (rule inj_onI, rule point_eqI) simp_all
  have r0: "x q < 1/2 \<and> 1/2 < y q" if "q \<in> ?q0 ` set lo" for q
    using that assms(1) by (auto simp: list_all_iff inside_def)
  have r1: "x q < 1/2 \<and> y q < 1/2" if "q \<in> ?q1 ` set lo" for q
    using that assms(1) by (auto simp: list_all_iff inside_def)
  have r2: "1/2 < x q \<and> y q < 1/2" if "q \<in> ?q2 ` set lo" for q
    using that assms(1) by (auto simp: list_all_iff inside_def)
  have r3: "1/2 < x q \<and> 1/2 < y q" if "q \<in> ?q3 ` set lo" for q
    using that assms(1) by (auto simp: list_all_iff inside_def)
  have d01: "?q0 ` set lo \<inter> ?q1 ` set lo = {}" using r0 r1 by fastforce
  have d02: "?q0 ` set lo \<inter> ?q2 ` set lo = {}" using r0 r2 by fastforce
  have d03: "?q0 ` set lo \<inter> ?q3 ` set lo = {}" using r0 r3 by fastforce
  have d12: "?q1 ` set lo \<inter> ?q2 ` set lo = {}" using r1 r2 by fastforce
  have d13: "?q1 ` set lo \<inter> ?q3 ` set lo = {}" using r1 r3 by fastforce
  have d23: "?q2 ` set lo \<inter> ?q3 ` set lo = {}" using r2 r3 by fastforce
  have "distinct (map ?q0 lo @ map ?q1 lo @ map ?q2 lo @ map ?q3 lo)"
    using assms(2) i0 i1 i2 i3 d01 d02 d03 d12 d13 d23
    by (simp add: distinct_map Int_Un_distrib Int_Un_distrib2)
  then show ?thesis
    unfolding blocks_eq .
qed

section \<open>What a call of \<open>hilbert_create\<close> returns\<close>

lemma hilbert_create_cases:
  assumes "hilbert_create out order = Returned n arr"
  shows "HILBERT_NUM_POINTS order = Some n \<and>
         (order = 1 \<and> arr = take n o1_hilbert \<or>
          order \<noteq> 1 \<and>
          (\<exists>lo. hilbert_create NonNull (order - 1) = Returned (n div 4) lo \<and>
             4 * (n div 4) = n \<and>
             arr = concat (map (\<lambda>i. hilbert_quadrant i (n div 4) lo) [0..<4])))"
  using assms
  by (subst (asm) hilbert_create.simps)
     (auto simp: fail_def return_arr_def
        split: if_splits option.splits outcome.splits out_ptr.splits)

lemma hilbert_create_not_Failed: "hilbert_create out order \<noteq> Failed"
  by (subst hilbert_create.simps)
     (auto simp: fail_def return_arr_def split: option.splits outcome.splits out_ptr.splits)

text \<open>
  The invariant of the recursion: a call that returns was made with an order from 1 to
  15, and it returns \<open>4 ^ order\<close> with a buffer of that length, whose points are
  strictly inside the unit square and pairwise distinct.
\<close>

lemma hilbert_create_Returned:
  "hilbert_create out order = Returned n arr \<Longrightarrow>
     1 \<le> order \<and> order \<le> 15 \<and> n = 4 ^ nat order \<and> length arr = n \<and>
     list_all inside arr \<and> distinct arr"
proof (induction out order arbitrary: n arr rule: hilbert_create.induct)
  case (1 out order)
  note c = hilbert_create_cases [OF "1.prems"]
  then have num: "HILBERT_NUM_POINTS order = Some n" by simp
  have guard: "\<not> (out = Null \<and> 1 \<le> order)"
    using "1.prems"
    by (subst (asm) hilbert_create.simps) (auto simp: fail_def split: if_splits)
  show ?case
  proof (cases "order = 1")
    case True
    with c have "arr = take n o1_hilbert" by simp
    moreover from num True have "n = 4" by (simp add: num_points_1)
    ultimately show ?thesis using True
      by (simp add: o1_hilbert_def inside_def)
  next
    case False
    with c obtain lo where lo: "hilbert_create NonNull (order - 1) = Returned (n div 4) lo"
      and n4: "4 * (n div 4) = n"
      and arr: "arr = concat (map (\<lambda>i. hilbert_quadrant i (n div 4) lo) [0..<4])"
      by auto
    from "1.IH" [OF guard num False lo]
    have ih: "1 \<le> order - 1" "order - 1 \<le> 15" "n div 4 = 4 ^ nat (order - 1)"
      "length lo = n div 4" "list_all inside lo" "distinct lo"
      by simp_all
    from ih(1,2) have "order mod 2 ^ 63 = order"
      by (intro mod_pos_pos_trivial) simp_all
    with HILBERT_NUM_POINTS_Some_range [OF num] have le: "order \<le> 15" by simp
    from ih(1) have ge: "1 \<le> order" by simp
    from HILBERT_NUM_POINTS_small [of order] num le ge have n: "n = 4 ^ nat order" by simp
    from arr ih(4)
    have arr': "arr = concat (map (\<lambda>i. hilbert_quadrant i (length lo) lo) [0..<4])"
      by simp
    have "length arr = n" using n4 ih(4) unfolding arr' blocks_eq by simp
    moreover have "list_all inside arr" unfolding arr' using ih(5) by (rule blocks_inside)
    moreover have "distinct arr" unfolding arr' using ih(5,6) by (rule blocks_distinct)
    ultimately show ?thesis using le ge n by simp
  qed
qed

text \<open>One step of the recursion, and the orders at which the call returns.\<close>

lemma hilbert_create_step:
  assumes "1 \<le> order" "order < 15"
    and "hilbert_create NonNull order = Returned (4 ^ nat order) lo"
  shows "hilbert_create NonNull (order + 1) =
     Returned (4 ^ nat (order + 1))
       (concat (map (\<lambda>i. hilbert_quadrant i (4 ^ nat order) lo) [0..<4]))"
proof -
  from assms have "HILBERT_NUM_POINTS (order + 1) = Some (4 ^ nat (order + 1))"
    by (intro HILBERT_NUM_POINTS_small) simp_all
  moreover from assms have "(4::nat) * 4 ^ nat order = 4 ^ nat (order + 1)"
    by (simp add: nat_add_distrib)
  ultimately show ?thesis using assms
    by (subst hilbert_create.simps) (simp add: return_arr_def)
qed

lemma hilbert_create_returns:
  assumes "1 \<le> order" "order \<le> 15"
  shows "\<exists>arr. hilbert_create NonNull order = Returned (4 ^ nat order) arr"
  using assms
proof (induction order rule: int_ge_induct)
  case base
  show ?case by (simp add: hilbert_create_1)
next
  case (step i)
  then obtain lo where "hilbert_create NonNull i = Returned (4 ^ nat i) lo" by auto
  with step show ?case using hilbert_create_step [of i lo] by auto
qed

text \<open>
  For every order above 1 at which the call returns, the buffer is four blocks, each
  as long as the curve \<open>lo\<close> of the order below: the first is \<open>lo\<close> reflected, rotated by
  \<open>space_rotate_c\<close> and scaled, the other three are \<open>lo\<close> scaled and nothing else.
\<close>

lemma hilbert_create_blocks:
  assumes "hilbert_create NonNull (order + 1) = Returned n arr" and "order + 1 \<noteq> 1"
  shows "\<exists>lo. hilbert_create NonNull order = Returned (4 ^ nat order) lo \<and>
           length lo = 4 ^ nat order \<and>
           arr = space_scale (space_rotate_c (space_reflect_y lo (1/2)) center_point) (1/2)
                   (POINT_AT 0 1) @
                 space_scale lo (1/2) (POINT_AT 0 0) @
                 space_scale lo (1/2) (POINT_AT 1 0) @
                 space_scale lo (1/2) (POINT_AT 1 1)"
proof -
  from hilbert_create_cases [OF assms(1)] assms(2)
  obtain lo where lo: "hilbert_create NonNull order = Returned (n div 4) lo"
    and arr: "arr = concat (map (\<lambda>i. hilbert_quadrant i (n div 4) lo) [0..<4])"
    by auto
  from hilbert_create_Returned [OF lo]
  have n: "n div 4 = 4 ^ nat order" and len: "length lo = n div 4" by simp_all
  from arr len have "arr =
      space_scale (space_rotate_c (space_reflect_y lo (1/2)) center_point) (1/2)
        (POINT_AT 0 1) @
      space_scale lo (1/2) (POINT_AT 0 0) @
      space_scale lo (1/2) (POINT_AT 1 0) @
      space_scale lo (1/2) (POINT_AT 1 1)"
    by (simp add: upt_0_4 hilbert_quadrant_def scale_origins_def)
  with lo n len show ?thesis by auto
qed

text \<open>
  For the orders from 1 to 15, allocation succeeding, the call returns \<open>4 ^ order\<close> and
  a buffer of that length.
\<close>

lemma hilbert_create_length:
  assumes "1 \<le> order" and "order \<le> 15"
  shows "\<exists>arr. hilbert_create NonNull order = Returned (4 ^ nat order) arr \<and>
           length arr = 4 ^ nat order"
proof -
  from hilbert_create_returns [OF assms]
  obtain arr where r: "hilbert_create NonNull order = Returned (4 ^ nat order) arr" ..
  from hilbert_create_Returned [OF r] have "length arr = 4 ^ nat order" by simp
  with r show ?thesis by blast
qed

lemma hilbert_create_copies_fit:
  assumes "hilbert_create NonNull (order - 1) = Returned lo_points lo"
    and "HILBERT_NUM_POINTS order = Some num_points"
  shows "4 * lo_points = num_points \<and> length lo = lo_points"
proof -
  from hilbert_create_Returned [OF assms(1)]
  have lo: "1 \<le> order - 1" "order - 1 \<le> 15" "lo_points = 4 ^ nat (order - 1)"
    "length lo = lo_points"
    by simp_all
  from lo(1,2) have "order mod 2 ^ 63 = order"
    by (intro mod_pos_pos_trivial) simp_all
  with HILBERT_NUM_POINTS_Some_range [OF assms(2)] have le: "order \<le> 15" by simp
  with lo(1) HILBERT_NUM_POINTS_small [of order] assms(2)
  have "num_points = 4 ^ nat order" by simp
  moreover from lo(1) have "nat order = Suc (nat (order - 1))" by simp
  ultimately show ?thesis using lo(3,4) by simp
qed

lemma hilbert_create_returns_iff:
  "(\<exists>n arr. hilbert_create NonNull order = Returned n arr) \<longleftrightarrow> 1 \<le> order \<and> order \<le> 15"
  using hilbert_create_Returned hilbert_create_returns by blast

lemma hilbert_create_Null: "hilbert_create Null order = Undefined"
proof -
  have "hilbert_create Null order \<noteq> Returned n arr" for n arr
  proof
    assume r: "hilbert_create Null order = Returned n arr"
    from hilbert_create_Returned [OF r] have "1 \<le> order" by simp
    with r show False by (subst (asm) hilbert_create.simps) (simp add: fail_def)
  qed
  with hilbert_create_not_Failed [of Null order] show ?thesis
    by (cases "hilbert_create Null order") auto
qed

text \<open>
  The coordinates of a curve of order \<open>n\<close> are whole multiples of \<open>2 ^ - (n + 1)\<close>. With
  \<open>n\<close> at most 15 and the points inside the unit square, such numbers, their
  differences with 0, 0.5 and 1 and their halves are \<open>double\<close>s, so that the operations of
  \<open>hilbert_create\<close> do not round.
\<close>

lemma blocks_on_grid:
  assumes "list_all (on_grid k) lo"
  shows "list_all (on_grid (Suc k))
           (concat (map (\<lambda>i. hilbert_quadrant i (length lo) lo) [0..<4]))"
proof -
  have "on_grid (Suc k) (POINT_AT ((1 - y p) / 2) (1 - x p / 2)) \<and>
        on_grid (Suc k) (POINT_AT (x p / 2) (y p / 2)) \<and>
        on_grid (Suc k) (POINT_AT ((x p + 1) / 2) (y p / 2)) \<and>
        on_grid (Suc k) (POINT_AT ((x p + 1) / 2) ((y p + 1) / 2))"
    if "on_grid k p" for p
  proof -
    from that have a: "x p * 2 ^ k \<in> \<int>" and b: "y p * 2 ^ k \<in> \<int>"
      by (simp_all add: on_grid_def)
    have c: "(2::real) ^ k \<in> \<int>" by simp
    have "(1 - y p) / 2 * 2 ^ Suc k = 2 ^ k - y p * 2 ^ k" by (simp add: field_simps)
    with b c have 1: "(1 - y p) / 2 * 2 ^ Suc k \<in> \<int>" by simp
    have "(1 - x p / 2) * 2 ^ Suc k = 2 ^ k + 2 ^ k - x p * 2 ^ k" by (simp add: field_simps)
    with a c have 2: "(1 - x p / 2) * 2 ^ Suc k \<in> \<int>" by simp
    have 3: "x p / 2 * 2 ^ Suc k \<in> \<int>" using a by simp
    have 4: "y p / 2 * 2 ^ Suc k \<in> \<int>" using b by simp
    have "(x p + 1) / 2 * 2 ^ Suc k = x p * 2 ^ k + 2 ^ k" by (simp add: field_simps)
    with a c have 5: "(x p + 1) / 2 * 2 ^ Suc k \<in> \<int>" by simp
    have "(y p + 1) / 2 * 2 ^ Suc k = y p * 2 ^ k + 2 ^ k" by (simp add: field_simps)
    with b c have 6: "(y p + 1) / 2 * 2 ^ Suc k \<in> \<int>" by simp
    from 1 2 3 4 5 6 show ?thesis by (simp add: on_grid_def)
  qed
  with assms show ?thesis
    unfolding blocks_eq by (auto simp: list_all_iff)
qed

lemma hilbert_create_on_grid:
  "hilbert_create out order = Returned n arr \<Longrightarrow> list_all (on_grid (nat order + 1)) arr"
proof (induction out order arbitrary: n arr rule: hilbert_create.induct)
  case (1 out order)
  note c = hilbert_create_cases [OF "1.prems"]
  then have num: "HILBERT_NUM_POINTS order = Some n" by simp
  have guard: "\<not> (out = Null \<and> 1 \<le> order)"
    using "1.prems"
    by (subst (asm) hilbert_create.simps) (auto simp: fail_def split: if_splits)
  show ?case
  proof (cases "order = 1")
    case True
    with c have "arr = take n o1_hilbert" by simp
    moreover from num True have "n = 4" by (simp add: num_points_1)
    moreover have "(1::real) \<in> \<int>" "(3::real) \<in> \<int>" by simp_all
    ultimately show ?thesis using True
      by (simp add: o1_hilbert_def on_grid_def)
  next
    case False
    with c obtain lo where lo: "hilbert_create NonNull (order - 1) = Returned (n div 4) lo"
      and arr: "arr = concat (map (\<lambda>i. hilbert_quadrant i (n div 4) lo) [0..<4])"
      by auto
    from hilbert_create_Returned [OF lo]
    have len: "length lo = n div 4" and ge: "1 \<le> order - 1" by simp_all
    from "1.IH" [OF guard num False lo]
    have "list_all (on_grid (nat (order - 1) + 1)) lo" .
    then have "list_all (on_grid (Suc (nat (order - 1) + 1)))
        (concat (map (\<lambda>i. hilbert_quadrant i (length lo) lo) [0..<4]))"
      by (rule blocks_on_grid)
    moreover from ge have "Suc (nat (order - 1) + 1) = nat order + 1" by simp
    ultimately show ?thesis using arr len by simp
  qed
qed

section \<open>The chunked writer\<close>

lemma to_write_min: "to_write write_left = min write_left max_write"
  by (simp add: to_write_def max_write_def min_def)

text \<open>
  The loop from the index \<open>i\<close> on writes the elements \<open>hc[i..len)\<close>. An array of \<open>len\<close>
  elements of 16 bytes lies in an address space of \<open>2 ^ 64\<close> bytes, so \<open>i + max_write\<close>
  does not wrap around while \<open>i < len\<close>.
\<close>

lemma write_loop_eq:
  assumes "len \<le> length hc" and "16 * length hc < 2 ^ 64"
  shows "write_loop repr hc len i fp =
           Some (Written (fp @ concat (map repr (take (len - i) (drop i hc)))))"
proof (induction "len - i" arbitrary: i fp rule: less_induct)
  case less
  show ?case
  proof (cases "i < len")
    case False
    then show ?thesis by (subst write_loop.simps) simp
  next
    case True
    let ?t = "to_write (len - i)"
    have t: "?t = min (len - i) max_write" by (rule to_write_min)
    with True assms(1) have inb: "i + ?t \<le> length hc" by simp
    from True assms have "i + max_write < 2 ^ 64" by (simp add: max_write_def)
    then have nxt: "(i + max_write) mod 2 ^ 64 = i + max_write" by simp
    from True have "len - (i + max_write) < len - i" by (simp add: max_write_def)
    note ih = less [OF this]
    have split: "take (len - i) (drop i hc) =
        take ?t (drop i hc) @ take (len - (i + max_write)) (drop (i + max_write) hc)"
    proof (cases "len - i \<le> max_write")
      case True
      then show ?thesis by (simp add: t)
    next
      case False
      then have "len - i = max_write + (len - (i + max_write))" by simp
      then have "take (len - i) (drop i hc) =
          take max_write (drop i hc) @
          take (len - (i + max_write)) (drop max_write (drop i hc))"
        by (metis take_add)
      with False show ?thesis by (simp add: t add.commute)
    qed
    have "write_loop repr hc len i fp =
        write_loop repr hc len ((i + max_write) mod 2 ^ 64) (fwrite repr hc i ?t fp)"
      by (subst write_loop.simps) (simp only: True inb if_True)
    also have "\<dots> = write_loop repr hc len (i + max_write) (fwrite repr hc i ?t fp)"
      by (simp only: nxt)
    also have "\<dots> = Some (Written (fwrite repr hc i ?t fp @
        concat (map repr (take (len - (i + max_write)) (drop (i + max_write) hc)))))"
      by (rule ih)
    also have "\<dots> = Some (Written (fp @ concat (map repr (take (len - i) (drop i hc)))))"
      by (simp add: fwrite_def split)
    finally show ?thesis .
  qed
qed

section \<open>Rounding to a \<open>double\<close>\<close>

text \<open>How to evaluate \<open>round_double\<close>: give the exponent of the first bit.\<close>

lemma round_double_eval:
  assumes "2 powr of_int k \<le> \<bar>r\<bar>" and "\<bar>r\<bar> < 2 powr of_int (k + 1)" and "- 1022 \<le> k"
  shows "round_double r =
     of_int (round_half_even (r / 2 powr of_int (k - 52))) * 2 powr of_int (k - 52)"
proof -
  have "(0::real) < 2 powr of_int k" by simp
  with assms(1) have pos: "0 < \<bar>r\<bar>" by linarith
  then have nz: "r \<noteq> 0" by simp
  from pos assms(1,2) have "\<lfloor>log 2 \<bar>r\<bar>\<rfloor> = k"
    by (subst floor_log_eq_powr_iff) simp_all
  moreover from assms(3) have "max (k - 52) (- 1074) = k - 52" by simp
  ultimately show ?thesis using nz
    by (simp only: round_double_def Let_def if_False)
qed

lemma rd_0: "round_double 0 = 0"
  by (simp add: round_double_def)








text \<open>Rounding is symmetric about 0.\<close>

lemma round_half_even_minus: "round_half_even (- q) = - round_half_even q"
proof (cases "q \<in> \<int>")
  case True
  then obtain n where "q = of_int n" by (auto elim: Ints_cases)
  then show ?thesis by (simp add: round_half_even_def Let_def flip: of_int_minus)
next
  case False
  then have "q \<noteq> of_int \<lfloor>q\<rfloor>" by (metis Ints_of_int)
  then have f: "\<lfloor>- q\<rfloor> = - \<lfloor>q\<rfloor> - 1"
    by (simp add: floor_minus ceiling_altdef)
  have d: "0 \<le> q - of_int \<lfloor>q\<rfloor>" "q - of_int \<lfloor>q\<rfloor> < 1" by linarith+
  show ?thesis
    unfolding round_half_even_def Let_def f
    by (auto simp: algebra_simps)
qed

lemma round_double_minus: "round_double (- r) = - round_double r"
  by (simp add: round_double_def Let_def round_half_even_minus)

lemma representable_minus: "representable (- v) = representable v"
  by (auto simp: representable_def round_double_minus)







text \<open>
  With a large axis: 1 reflected twice about \<open>10 ^ 17\<close> is 0, since \<open>1 - 10 ^ 17\<close> rounds
  to \<open>- 10 ^ 17\<close>.
\<close>

lemma rd_large: "round_double (1 - 10 ^ 17) = - (10 ^ 17)"
  using round_double_eval [of 56 "1 - 10 ^ 17"]
  by (simp add: round_half_even_def Let_def field_simps)

lemma rd_e17: "round_double (10 ^ 17) = 10 ^ 17"
  using round_double_eval [of 56 "10 ^ 17"]
  by (simp add: round_half_even_def Let_def field_simps)

lemma rd_2e17: "round_double (2 * 10 ^ 17) = 2 * 10 ^ 17"
  using round_double_eval [of 57 "2 * 10 ^ 17"]
  by (simp add: round_half_even_def Let_def field_simps)

lemma reflect_double_large_axis:
  "space_reflect_y_double (space_reflect_y_double [POINT_AT 1 0] (10 ^ 17)) (10 ^ 17) =
     [POINT_AT 0 0]"
proof -
  have a: "SPACE_REFLECT_POINT_double 1 (10 ^ 17) = 2 * 10 ^ 17"
    unfolding SPACE_REFLECT_POINT_double_def double_sub_def rd_large
    using rd_e17 rd_2e17 by (simp add: double_add_def double_mul_def)
  have b: "SPACE_REFLECT_POINT_double (2 * 10 ^ 17) (10 ^ 17) = 0"
    using rd_e17 round_double_minus [of "10 ^ 17"]
    by (simp add: SPACE_REFLECT_POINT_double_def double_sub_def double_add_def double_mul_def
        rd_0)
  show ?thesis
    unfolding space_reflect_y_double_def list.map space_vec2.simps a b by simp
qed




section \<open>The claims\<close>

text \<open>
  Claim C1. For every order above 1 the curve is four blocks of length
  \<open>4 ^ (order - 1)\<close>; block 0 is the curve of the order below reflected about
  \<open>x = 0.5\<close>, rotated clockwise about the centre and scaled by 0.5 about \<open>(0, 1)\<close>;
  blocks 1 and 2 are that curve scaled about \<open>(0, 0)\<close> and \<open>(1, 0)\<close>; block 3 is that
  curve reflected, rotated counter-clockwise and scaled about \<open>(1, 1)\<close>.

  The code at order 2: blocks 0, 1 and 2 are as the claim says, and block 3 is the
  curve of order 1 scaled about \<open>(1, 1)\<close> with no reflection and no rotation, which is
  not what the claim says. The loop index runs from 0 to 3 and the branch for the
  last quadrant tests \<open>i = 4\<close>.
\<close>

theorem hilbert_create_2_block_3_only_scaled:
  "take 4 (buffer (hilbert_create NonNull 2)) =
     space_scale
       (space_rotate_c (space_reflect_y (buffer (hilbert_create NonNull 1)) (1/2)) center_point)
       (1/2) (POINT_AT 0 1) \<and>
   take 4 (drop 4 (buffer (hilbert_create NonNull 2))) =
     space_scale (buffer (hilbert_create NonNull 1)) (1/2) (POINT_AT 0 0) \<and>
   take 4 (drop 8 (buffer (hilbert_create NonNull 2))) =
     space_scale (buffer (hilbert_create NonNull 1)) (1/2) (POINT_AT 1 0) \<and>
   drop 12 (buffer (hilbert_create NonNull 2)) =
     space_scale (buffer (hilbert_create NonNull 1)) (1/2) (POINT_AT 1 1) \<and>
   drop 12 (buffer (hilbert_create NonNull 2)) \<noteq>
     space_scale
       (space_rotate_cc (space_reflect_y (buffer (hilbert_create NonNull 1)) (1/2)) center_point)
       (1/2) (POINT_AT 1 1)"
  by (simp add: hilbert_create_2 hilbert_create_1 o1_hilbert_def center_point_def scale_map
      space_rotate_c_def space_rotate_cc_def reflect_y_map rotate_point_x rotate_point_y)

text \<open>
  Claim C2. A call with an order below 1 (0 or \<open>-1\<close>) fails with the invalid-order
  signal before anything is allocated, and returns no buffer.

  The code: the test before \<^verbatim>\<open>goto fail\<close> is \<^verbatim>\<open>out == NULL && order >= 1\<close>, which an
  order below 1 never satisfies. With the order 0 the point count is 1, a buffer of
  one point is allocated, and the recursive call with the order \<open>-1\<close> shifts by
  \<open>2 ^ 64 - 2\<close>, which is undefined; the call with the order \<open>-1\<close> does so at once.
  Neither ends with the signal \<open>Failed\<close>.
\<close>

theorem hilbert_create_order_below_1:
  "HILBERT_NUM_POINTS 0 = Some 1 \<and>
   hilbert_create NonNull 0 = Undefined \<and>
   hilbert_create NonNull (- 1) = Undefined \<and>
   hilbert_create NonNull 0 \<noteq> Failed \<and>
   hilbert_create NonNull (- 1) \<noteq> Failed"
proof -
  have m: "hilbert_create NonNull (- 1) = Undefined"
    by (simp add: hilbert_create.simps [of _ "- 1"] num_points_minus_1)
  have z: "hilbert_create NonNull 0 = Undefined"
    by (simp add: hilbert_create.simps [of _ 0] num_points_0 m)
  show ?thesis by (simp add: m z num_points_0)
qed

text \<open>
  Claim C3. The clockwise rotation maps each point \<open>p\<close> to \<open>origin + swap (p - origin)\<close>
  with the \<open>y\<close> after the swap negated, the counter-clockwise rotation to the same with
  the \<open>x\<close> after the swap negated, and neither changes the length of the sequence.

  As stated this fails: \<open>space_rotate_c\<close> takes \<open>(1, 0)\<close> about the origin \<open>(0, 0)\<close> to
  \<open>(0, 1)\<close>, where negating the \<open>y\<close> after the swap gives \<open>(0, - 1)\<close>; and
  \<open>space_rotate_cc\<close> takes it to \<open>(0, - 1)\<close>, where negating the \<open>x\<close> after the swap
  gives \<open>(0, 1)\<close>.
\<close>

theorem space_rotate_c_negates_x_counterexample:
  "space_rotate_c [POINT_AT 1 0] (POINT_AT 0 0) = [POINT_AT 0 1] \<and>
   map (\<lambda>p. swap_negate_y p (POINT_AT 0 0)) [POINT_AT 1 0] = [POINT_AT 0 (- 1)] \<and>
   space_rotate_c [POINT_AT 1 0] (POINT_AT 0 0) \<noteq>
     map (\<lambda>p. swap_negate_y p (POINT_AT 0 0)) [POINT_AT 1 0] \<and>
   space_rotate_cc [POINT_AT 1 0] (POINT_AT 0 0) \<noteq>
     map (\<lambda>p. swap_negate_x p (POINT_AT 0 0)) [POINT_AT 1 0]"
  by (simp add: space_rotate_c_def space_rotate_cc_def rotate_point_x rotate_point_y
      swap_negate_x_def swap_negate_y_def)

text \<open>
  Claim C3, amended. The two members are the other way round: \<open>space_rotate_c\<close> negates
  the \<open>x\<close> after the swap and \<open>space_rotate_cc\<close> the \<open>y\<close> after the swap. Both keep the
  length of the sequence.
\<close>

theorem space_rotate_swap_negate:
  "space_rotate_c arr origin = map (\<lambda>p. swap_negate_x p origin) arr \<and>
   space_rotate_cc arr origin = map (\<lambda>p. swap_negate_y p origin) arr \<and>
   length (space_rotate_c arr origin) = length arr \<and>
   length (space_rotate_cc arr origin) = length arr"
  by (simp add: space_rotate_c_def space_rotate_cc_def rotate_point_x rotate_point_y
      swap_negate_x_def swap_negate_y_def)

text \<open>
  Claim C4. For every order from 1 on, the sequence that \<open>hilbert_create\<close> returns has
  exactly \<open>4 ^ order\<close> points.

  The code at the order 16: the point count is \<^verbatim>\<open>1 << 32\<close>, a shift of the \<open>int\<close> literal
  \<open>1\<close> by the width of an \<open>int\<close>, which is undefined; no sequence of \<open>4 ^ 16\<close> points is
  returned. For the orders from 1 to 15 the count is \<open>4 ^ order\<close> and so is the length
  (lemma \<open>hilbert_create_length\<close>).
\<close>

theorem hilbert_create_order_16_undefined:
  "HILBERT_NUM_POINTS 16 = None \<and> hilbert_create NonNull 16 = Undefined"
  by (simp add: hilbert_create.simps [of _ 16] num_points_16)

text \<open>
  Claim C5. \<open>hilbert_create(1)\<close> returns exactly the four points \<open>(0.25, 0.75)\<close>,
  \<open>(0.25, 0.25)\<close>, \<open>(0.75, 0.25)\<close>, \<open>(0.75, 0.75)\<close>, in this order.
\<close>

theorem hilbert_create_order_1:
  "hilbert_create NonNull 1 =
     Returned 4
       [POINT_AT (1/4) (3/4), POINT_AT (1/4) (1/4), POINT_AT (3/4) (1/4), POINT_AT (3/4) (3/4)]"
  by (simp add: hilbert_create.simps [of _ 1] num_points_1 o1_hilbert_def return_arr_def)

text \<open>
  Claim C6. For every order from 1 on, both coordinates of every point of the sequence
  that \<open>hilbert_create\<close> returns lie in the closed interval from 0 to 1.

  Proved for every call that returns a sequence, whatever its arguments.
\<close>

theorem hilbert_create_range:
  assumes "hilbert_create out order = Returned n arr" and "p \<in> set arr"
  shows "0 \<le> x p \<and> x p \<le> 1 \<and> 0 \<le> y p \<and> y p \<le> 1"
proof -
  from hilbert_create_Returned [OF assms(1)] have "list_all inside arr" by simp
  with assms(2) have "inside p" by (simp add: list_all_iff)
  then show ?thesis by (simp add: inside_def)
qed

theorem hilbert_create_range_witness:
  "hilbert_create NonNull 2 = Returned 16
    [POINT_AT (1/8) (7/8), POINT_AT (3/8) (7/8), POINT_AT (3/8) (5/8), POINT_AT (1/8) (5/8),
     POINT_AT (1/8) (3/8), POINT_AT (1/8) (1/8), POINT_AT (3/8) (1/8), POINT_AT (3/8) (3/8),
     POINT_AT (5/8) (3/8), POINT_AT (5/8) (1/8), POINT_AT (7/8) (1/8), POINT_AT (7/8) (3/8),
     POINT_AT (5/8) (7/8), POINT_AT (5/8) (5/8), POINT_AT (7/8) (5/8), POINT_AT (7/8) (7/8)] \<and>
   0 \<le> x (POINT_AT (7/8) (1/8)) \<and> x (POINT_AT (7/8) (1/8)) \<le> 1 \<and>
   0 \<le> y (POINT_AT (7/8) (1/8)) \<and> y (POINT_AT (7/8) (1/8)) \<le> 1"
proof -
  note r = hilbert_create_2
  have "POINT_AT (7/8) (1/8) \<in> set (buffer (hilbert_create NonNull 2))"
    by (simp add: r)
  then have "POINT_AT (7/8) (1/8) \<in> set
    [POINT_AT (1/8) (7/8), POINT_AT (3/8) (7/8), POINT_AT (3/8) (5/8), POINT_AT (1/8) (5/8),
     POINT_AT (1/8) (3/8), POINT_AT (1/8) (1/8), POINT_AT (3/8) (1/8), POINT_AT (3/8) (3/8),
     POINT_AT (5/8) (3/8), POINT_AT (5/8) (1/8), POINT_AT (7/8) (1/8), POINT_AT (7/8) (3/8),
     POINT_AT (5/8) (7/8), POINT_AT (5/8) (5/8), POINT_AT (7/8) (5/8), POINT_AT (7/8) (7/8)]"
    by (simp only: r outcome.sel)
  from hilbert_create_range [OF r this] r show ?thesis by (simp only: simp_thms)
qed

text \<open>
  Claim C7. The chunked writer emits exactly the bytes of the points \<open>hc[0..len)\<close> in
  their order: writing in chunks of \<open>min (remaining, 65536)\<close> elements gives the same
  output as one write of the whole array.

  \<open>hc\<close> is an array of at least \<open>len\<close> elements of 16 bytes each, whose size in
  bytes is a \<open>size_t\<close>. The loop then returns, and the stream is what a single \<open>fwrite\<close>
  of \<open>len\<close> elements makes of it.
\<close>

theorem write_hilbert_curve_single_write:
  assumes "len \<le> length hc" and "16 * length hc < 2 ^ 64"
  shows "write_hilbert_curve repr hc len fp = Some (Written (single_write repr hc len fp)) \<and>
         single_write repr hc len fp = fp @ concat (map repr (take len hc)) \<and>
         (\<forall>write_left. to_write write_left = min write_left 65536)"
proof -
  from write_loop_eq [OF assms, of repr 0 fp]
  have "write_hilbert_curve repr hc len fp =
      Some (Written (fp @ concat (map repr (take len hc))))"
    by (simp add: write_hilbert_curve_def)
  moreover have "single_write repr hc len fp = fp @ concat (map repr (take len hc))"
    by (simp add: single_write_def fwrite_def)
  moreover have "\<forall>write_left. to_write write_left = min write_left 65536"
    by (simp add: to_write_min max_write_def)
  ultimately show ?thesis by simp
qed

text \<open>
  A curve of 70000 points, each written as its \<open>x\<close> followed by its \<open>y\<close>, goes out in
  two chunks.
\<close>

theorem write_hilbert_curve_single_write_witness:
  "write_hilbert_curve (\<lambda>p. [x p, y p]) (replicate 70000 (POINT_AT (1/4) (3/4))) 70000 [] =
     Some (Written
       (single_write (\<lambda>p. [x p, y p]) (replicate 70000 (POINT_AT (1/4) (3/4))) 70000 []))"
proof -
  have h1: "70000 \<le> length (replicate 70000 (POINT_AT (1/4) (3/4)))" by simp
  have h2: "16 * length (replicate 70000 (POINT_AT (1/4) (3/4))) < 2 ^ 64" by simp
  from write_hilbert_curve_single_write [OF h1 h2] show ?thesis by blast
qed







text \<open>
  Claim C10. In exact arithmetic, the \<open>4 ^ order\<close> points that \<open>hilbert_create\<close> returns
  for an order from 1 on are pairwise distinct.

  Proved for every call that returns a sequence, whatever its arguments.
\<close>

theorem hilbert_create_distinct:
  assumes "hilbert_create out order = Returned n arr"
  shows "distinct arr \<and> length arr = 4 ^ nat order"
  using hilbert_create_Returned [OF assms] by simp

theorem hilbert_create_distinct_witness:
  "distinct (buffer (hilbert_create NonNull 2)) \<and>
   length (buffer (hilbert_create NonNull 2)) = 16"
proof -
  from hilbert_create_distinct [OF hilbert_create_2]
  show ?thesis by (simp only: hilbert_create_2 outcome.sel) simp
qed

end
